theory Spec2Isabelle
  imports Main
begin

text \<open>
  The demo worker of wa-sqlite (\<^verbatim>\<open>demo/demo-worker.js\<close>) calls \<^verbatim>\<open>maybeReset\<close> once when
  it starts, before it opens the database. When the page was loaded with the
  \<^verbatim>\<open>reset\<close> search parameter, \<^verbatim>\<open>maybeReset\<close> clears the origin private file system and
  IndexedDB unless another worker is using them, and then marks the storage as in use.
  Workers coordinate through two named locks of \<^verbatim>\<open>navigator.locks\<close>. This theory embeds
  \<^verbatim>\<open>maybeReset\<close> and verifies its use of the two locks.
\<close>

section \<open>The lock broker\<close>

text \<open>
  The worker coordinates with other workers through \<^verbatim>\<open>navigator.locks\<close> only. A lock
  is requested by name, with an optional mode (\<^verbatim>\<open>'exclusive'\<close> when absent) and an
  optional \<^verbatim>\<open>ifAvailable\<close> flag (false when absent).
\<close>

datatype lock_mode = Exclusive | Shared

record lock_options =
  mode :: "lock_mode option"
  ifAvailable :: bool

type_synonym ctx = nat

type_synonym held_lock = "string \<times> ctx \<times> lock_mode"

datatype error =
    RemoveEntryFailed string
  | DeleteDatabaseFailed string
  | Error string

datatype event =
    LockRequest string lock_options
  | LockGranted string lock_mode
  | LockUnavailable string
  | LockReleased string
  | ConsoleLog string
  | ConsoleWarn string

text \<open>
  The world a run acts on: the broker's held locks (name, holding context, mode), the
  origin private file system (\<open>None\<close> when \<^verbatim>\<open>navigator.storage\<close> is undefined, else the
  names of the root's entries), the IndexedDB databases, and the log of what has
  happened, oldest event first.
\<close>

record world =
  held :: "held_lock list"
  opfs :: "string list option"
  idb :: "string list"
  trace :: "event list"

text \<open>
  What a run is started with: the identity of its context, the keys of
  \<^verbatim>\<open>location.search\<close>, whether \<^verbatim>\<open>indexedDB.databases\<close> exists, which removals and
  deletions the platform lets fail, and which deletions it blocks (another connection
  to the database is open) so that neither \<^verbatim>\<open>onsuccess\<close> nor \<^verbatim>\<open>onerror\<close> fires.
\<close>

record env =
  self :: ctx
  searchParams :: "string list"
  hasDatabases :: bool
  removeFails :: "string \<Rightarrow> bool"
  deleteFails :: "string \<Rightarrow> bool"
  deleteBlocked :: "string \<Rightarrow> bool"

text \<open>How an awaited promise ends; \<open>Pending\<close> is a promise that never settles.\<close>

datatype outcome = Fulfilled | Rejected error | Pending

datatype grant = Lock lock_mode | Null | Waiting

definition outerName :: string where
  "outerName = ''demo-worker-outer''"

definition innerName :: string where
  "innerName = ''demo-worker-inner''"

definition clearingLog :: string where
  "clearingLog = ''clearing OPFS and IndexedDB''"

definition skipWarning :: string where
  "skipWarning = ''reset skipped because another instance already holds the lock''"

definition has :: "env \<Rightarrow> string \<Rightarrow> bool" where
  "has e k = (k \<in> set (searchParams e))"

text \<open>
  Modelled from the spec: the Lock Broker is the platform's \<^verbatim>\<open>navigator.locks\<close>, which
  is not part of the source. An exclusive lock excludes every other holder of the same
  name; a shared lock excludes only exclusive holders. The world is a snapshot in which
  no other context has a request waiting.
\<close>

definition grantable :: "held_lock list \<Rightarrow> string \<Rightarrow> lock_mode \<Rightarrow> bool" where
  "grantable hs n m =
     (case m of
        Exclusive \<Rightarrow> [h \<leftarrow> hs. fst h = n] = []
      | Shared \<Rightarrow> [h \<leftarrow> hs. fst h = n \<and> snd (snd h) = Exclusive] = [])"

text \<open>
  Modelled from the spec: \<^verbatim>\<open>navigator.locks.request(name, options, callback)\<close> up to
  the moment the callback is invoked. A grantable request is granted and the callback
  gets the lock; a request with \<^verbatim>\<open>ifAvailable\<close> that is not grantable invokes the
  callback with \<^verbatim>\<open>null\<close>; any other request waits, and in a snapshot where nobody else
  moves it waits forever.
\<close>

definition requestLock :: "ctx \<Rightarrow> string \<Rightarrow> lock_options \<Rightarrow> world \<Rightarrow> grant \<times> world" where
  "requestLock c n opts w =
     (let m = (case mode opts of None \<Rightarrow> Exclusive | Some m' \<Rightarrow> m');
          w1 = w\<lparr>trace := trace w @ [LockRequest n opts]\<rparr>
      in if grantable (held w1) n m
         then (Lock m, w1\<lparr>held := held w1 @ [(n, c, m)], trace := trace w1 @ [LockGranted n m]\<rparr>)
         else if ifAvailable opts
         then (Null, w1\<lparr>trace := trace w1 @ [LockUnavailable n]\<rparr>)
         else (Waiting, w1))"

text \<open>
  Modelled from the spec: the broker drops a lock when the promise returned by the
  request's callback settles.
\<close>

definition releaseLock :: "ctx \<Rightarrow> string \<Rightarrow> world \<Rightarrow> world" where
  "releaseLock c n w =
     w\<lparr>held := [h \<leftarrow> held w. \<not> (fst h = n \<and> fst (snd h) = c)],
       trace := trace w @ [LockReleased n]\<rparr>"

definition holds :: "world \<Rightarrow> ctx \<Rightarrow> string \<Rightarrow> bool" where
  "holds w c n = ([h \<leftarrow> held w. fst h = n \<and> fst (snd h) = c] \<noteq> [])"

section \<open>The worker's \<^verbatim>\<open>maybeReset\<close>\<close>

text \<open>\<^verbatim>\<open>await p; rest\<close>: the rest runs only when \<open>p\<close> is fulfilled.\<close>

definition await :: "outcome \<times> world \<Rightarrow> (world \<Rightarrow> outcome \<times> world) \<Rightarrow> outcome \<times> world" where
  "await r k =
     (case r of
        (Fulfilled, w) \<Rightarrow> k w
      | (Rejected err, w) \<Rightarrow> (Rejected err, w)
      | (Pending, w) \<Rightarrow> (Pending, w))"

text \<open>
  Lines 128 to 134. The request has no options. Its callback ignores the lock it is
  given, hands the resolver of a fresh promise out as \<^verbatim>\<open>outerLockReleaser\<close> and returns
  that promise, so the lock stays held until the releaser is called.
\<close>

definition acquireOuter :: "env \<Rightarrow> world \<Rightarrow> outcome \<times> world" where
  "acquireOuter e w =
     (case requestLock (self e) outerName \<lparr>mode = None, ifAvailable = False\<rparr> w of
        (Waiting, w1) \<Rightarrow> (Pending, w1)
      | (_, w1) \<Rightarrow> (Fulfilled, w1))"

text \<open>Line 175: resolving the promise of the outer callback releases the outer lock.\<close>

definition outerLockReleaser :: "env \<Rightarrow> world \<Rightarrow> world" where
  "outerLockReleaser e w = releaseLock (self e) outerName w"

text \<open>
  Lines 139 to 145: every entry of the root directory is removed in turn; the first
  removal that fails ends the loop with the remaining entries still there. Every
  removal is taken to settle: it succeeds or it fails.
\<close>

fun removeEntries :: "(string \<Rightarrow> bool) \<Rightarrow> string list \<Rightarrow> error option \<times> string list" where
  "removeEntries fails [] = (None, [])"
| "removeEntries fails (n # ns) =
     (if fails n then (Some (RemoveEntryFailed n), n # ns) else removeEntries fails ns)"

definition clearOPFS :: "env \<Rightarrow> world \<Rightarrow> outcome \<times> world" where
  "clearOPFS e w =
     (case opfs w of
        None \<Rightarrow> (Fulfilled, w)
      | Some names \<Rightarrow>
          (case removeEntries (removeFails e) names of
             (None, rest) \<Rightarrow> (Fulfilled, w\<lparr>opfs := Some rest\<rparr>)
           | (Some err, rest) \<Rightarrow> (Rejected err, w\<lparr>opfs := Some rest\<rparr>)))"

text \<open>
  Lines 151 to 157. A deletion is started for every name of the list at once, and the
  promise of each settles only through \<^verbatim>\<open>onsuccess\<close> or \<^verbatim>\<open>onerror\<close>; no
  \<^verbatim>\<open>onblocked\<close> handler is set. The deletions are taken to settle in the order of the
  list. One that succeeds removes its database. One that the platform blocks never
  settles and leaves its database. The first one that fails rejects \<^verbatim>\<open>Promise.all\<close>
  while the later ones are still running, so their databases are still there when
  the rejection is seen. Without a failure \<^verbatim>\<open>Promise.all\<close> is fulfilled when every
  deletion has succeeded and stays pending when one is blocked.
\<close>

fun deleteDatabases ::
  "(string \<Rightarrow> bool) \<Rightarrow> (string \<Rightarrow> bool) \<Rightarrow> string list \<Rightarrow> string list \<Rightarrow>
     outcome \<times> string list" where
  "deleteDatabases fails blocked [] dbs = (Fulfilled, dbs)"
| "deleteDatabases fails blocked (n # ns) dbs =
     (if fails n then (Rejected (DeleteDatabaseFailed n), dbs)
      else if blocked n then
        (case deleteDatabases fails blocked ns dbs of
           (Fulfilled, dbs') \<Rightarrow> (Pending, dbs')
         | (Rejected err, dbs') \<Rightarrow> (Rejected err, dbs')
         | (Pending, dbs') \<Rightarrow> (Pending, dbs'))
      else deleteDatabases fails blocked ns (removeAll n dbs))"

text \<open>
  Lines 147 to 157: the databases to delete are those the platform lists, or
  \<^verbatim>\<open>demo\<close> and \<^verbatim>\<open>demo-floor\<close> when it cannot list them.
\<close>

definition clearIndexedDB :: "env \<Rightarrow> world \<Rightarrow> outcome \<times> world" where
  "clearIndexedDB e w =
     (let dbList = (if hasDatabases e then idb w else [''demo'', ''demo-floor''])
      in case deleteDatabases (deleteFails e) (deleteBlocked e) dbList (idb w) of
           (r, dbs) \<Rightarrow> (r, w\<lparr>idb := dbs\<rparr>))"

text \<open>Lines 138 to 157, the destructive reset: the branch of the callback that got the lock.\<close>

definition clearStorage :: "env \<Rightarrow> world \<Rightarrow> outcome \<times> world" where
  "clearStorage e w =
     await (clearOPFS e (w\<lparr>trace := trace w @ [ConsoleLog clearingLog]\<rparr>)) (clearIndexedDB e)"

text \<open>
  Lines 136 to 161. The inner lock is requested with \<^verbatim>\<open>{ ifAvailable: true }\<close> and no
  mode. With the lock the callback clears the storage, without it the callback warns.
  The callback is asynchronous: the broker releases the lock when its promise settles,
  and the request's own promise settles the same way afterwards; while the callback's
  promise is pending the lock stays held.
\<close>

definition probeAndClear :: "env \<Rightarrow> world \<Rightarrow> outcome \<times> world" where
  "probeAndClear e w =
     (case requestLock (self e) innerName \<lparr>mode = None, ifAvailable = True\<rparr> w of
        (Lock m, w1) \<Rightarrow>
          (case clearStorage e w1 of
             (Pending, w2) \<Rightarrow> (Pending, w2)
           | (r, w2) \<Rightarrow> (r, releaseLock (self e) innerName w2))
      | (Null, w1) \<Rightarrow> (Fulfilled, w1\<lparr>trace := trace w1 @ [ConsoleWarn skipWarning]\<rparr>)
      | (Waiting, w1) \<Rightarrow> (Pending, w1))"

text \<open>
  Lines 163 to 173. The inner lock is requested again, with
  \<^verbatim>\<open>{ mode, ifAvailable: true }\<close>. With the lock the callback resolves the awaited
  promise and returns a promise that never settles, so the lock is kept; without it
  the callback rejects the awaited promise.
\<close>

definition markerMode :: "env \<Rightarrow> lock_mode" where
  "markerMode e = (if has e ''exclusive'' then Exclusive else Shared)"

definition markInUse :: "env \<Rightarrow> world \<Rightarrow> outcome \<times> world" where
  "markInUse e w =
     (case requestLock (self e) innerName \<lparr>mode = Some (markerMode e), ifAvailable = True\<rparr> w of
        (Lock m, w1) \<Rightarrow> (Fulfilled, w1)
      | (Null, w1) \<Rightarrow> (Rejected (Error ''failed to acquire inner lock''), w1)
      | (Waiting, w1) \<Rightarrow> (Pending, w1))"

text \<open>Lines 126 to 177.\<close>

definition maybeReset :: "env \<Rightarrow> world \<Rightarrow> outcome \<times> world" where
  "maybeReset e w =
     (if has e ''reset'' then
        await (acquireOuter e w) (\<lambda>w1.
        await (probeAndClear e w1) (\<lambda>w2.
        await (markInUse e w2) (\<lambda>w3.
        (Fulfilled, outerLockReleaser e w3))))
      else (Fulfilled, w))"

section \<open>Several workers\<close>

text \<open>
  Where a context stands in \<^verbatim>\<open>maybeReset\<close>: before the first line, with the outer lock
  and about to probe, inside the callback that clears the storage, about to request
  the marker, about to call \<^verbatim>\<open>outerLockReleaser\<close>, returned, or closed.
\<close>

datatype pc = AtStart | Probing | Clearing | Marking | Releasing | Ended outcome | Closed

text \<open>
  One step of one context: \<^verbatim>\<open>maybeReset\<close> cut at its awaits. A context that waits for
  a lock or for a clearing that does not settle, and one that has returned or is
  closed, has no step. The step into
  \<open>Clearing\<close> is the invocation of the probe callback with the lock, which logs at
  once; the step out of it is the settling of that callback.
\<close>

definition stepCtx :: "env \<Rightarrow> pc \<Rightarrow> world \<Rightarrow> (pc \<times> world) option" where
  "stepCtx e p w =
     (case p of
        AtStart \<Rightarrow>
          if has e ''reset'' then
            (case acquireOuter e w of
               (Fulfilled, w1) \<Rightarrow> Some (Probing, w1)
             | (Rejected err, w1) \<Rightarrow> Some (Ended (Rejected err), w1)
             | (Pending, w1) \<Rightarrow> None)
          else Some (Ended Fulfilled, w)
      | Probing \<Rightarrow>
          (case requestLock (self e) innerName \<lparr>mode = None, ifAvailable = True\<rparr> w of
             (Lock m, w1) \<Rightarrow> Some (Clearing, w1\<lparr>trace := trace w1 @ [ConsoleLog clearingLog]\<rparr>)
           | (Null, w1) \<Rightarrow> Some (Marking, w1\<lparr>trace := trace w1 @ [ConsoleWarn skipWarning]\<rparr>)
           | (Waiting, w1) \<Rightarrow> None)
      | Clearing \<Rightarrow>
          (case await (clearOPFS e w) (clearIndexedDB e) of
             (Fulfilled, w2) \<Rightarrow> Some (Marking, releaseLock (self e) innerName w2)
           | (Rejected err, w2) \<Rightarrow> Some (Ended (Rejected err), releaseLock (self e) innerName w2)
           | (Pending, w2) \<Rightarrow> None)
      | Marking \<Rightarrow>
          (case markInUse e w of
             (Fulfilled, w3) \<Rightarrow> Some (Releasing, w3)
           | (Rejected err, w3) \<Rightarrow> Some (Ended (Rejected err), w3)
           | (Pending, w3) \<Rightarrow> None)
      | Releasing \<Rightarrow> Some (Ended Fulfilled, outerLockReleaser e w)
      | Ended r \<Rightarrow> None
      | Closed \<Rightarrow> None)"

text \<open>A context running alone, for at most the given number of steps.\<close>

fun runCtx :: "nat \<Rightarrow> env \<Rightarrow> pc \<times> world \<Rightarrow> pc \<times> world" where
  "runCtx 0 e s = s"
| "runCtx (Suc n) e (p, w) =
     (case stepCtx e p w of None \<Rightarrow> (p, w) | Some s' \<Rightarrow> runCtx n e s')"

record system =
  pcs :: "ctx \<Rightarrow> pc"
  shared :: world

text \<open>
  Modelled from the spec: how the runs of several contexts go together is decided by
  the platform, not by the source. Contexts share nothing but the broker and the
  storage, and the requests for locks are the points where one run depends on
  another. All contexts start before the first line of \<^verbatim>\<open>maybeReset\<close>; a schedule
  names, action by action, the context that moves next or that is closed. A context
  that is scheduled while it has no step stays where it is; when a context is closed
  the broker drops the locks it holds.
\<close>

datatype action = Move ctx | Close ctx

definition initial :: "world \<Rightarrow> system" where
  "initial w = \<lparr>pcs = (\<lambda>c. AtStart), shared = w\<rparr>"

definition act :: "(ctx \<Rightarrow> env) \<Rightarrow> system \<Rightarrow> action \<Rightarrow> system" where
  "act envs s a =
     (case a of
        Move c \<Rightarrow>
          (case stepCtx (envs c) (pcs s c) (shared s) of
             None \<Rightarrow> s
           | Some (p', w') \<Rightarrow> \<lparr>pcs = (pcs s)(c := p'), shared = w'\<rparr>)
      | Close c \<Rightarrow>
          \<lparr>pcs = (pcs s)(c := Closed),
           shared = (shared s)\<lparr>held := [h \<leftarrow> held (shared s). fst (snd h) \<noteq> c]\<rparr>\<rparr>)"

definition runAll :: "(ctx \<Rightarrow> env) \<Rightarrow> action list \<Rightarrow> system \<Rightarrow> system" where
  "runAll envs schedule s = foldl (act envs) s schedule"

text \<open>An exclusive lock is the only lock of its name.\<close>

definition exclusiveRespected :: "held_lock list \<Rightarrow> bool" where
  "exclusiveRespected hs =
     (\<forall>n c. (n, c, Exclusive) \<in> set hs \<longrightarrow> [h \<leftarrow> hs. fst h = n] = [(n, c, Exclusive)])"

text \<open>The places between the grant of the outer lock and its release.\<close>

definition holdsOuterAt :: "pc \<Rightarrow> bool" where
  "holdsOuterAt p = (p = Probing \<or> p = Clearing \<or> p = Marking \<or> p = Releasing)"

definition lockInvariant :: "system \<Rightarrow> bool" where
  "lockInvariant s =
     (exclusiveRespected (held (shared s)) \<and>
      (\<forall>c. pcs s c = Clearing \<longrightarrow> (innerName, c, Exclusive) \<in> set (held (shared s))) \<and>
      (\<forall>c. holdsOuterAt (pcs s c) \<longrightarrow> (outerName, c, Exclusive) \<in> set (held (shared s))))"

section \<open>Observing a run\<close>

text \<open>The events a run adds to the log of the world it starts in.\<close>

definition eventsOf :: "env \<Rightarrow> world \<Rightarrow> event list" where
  "eventsOf e w = drop (length (trace w)) (trace (snd (maybeReset e w)))"


text \<open>
  The request of lines 163 to 173 is the only request for the inner lock that names a
  mode; \<open>beforeMarker\<close> is the part of a log that precedes it.
\<close>

definition isMarkerRequest :: "event \<Rightarrow> bool" where
  "isMarkerRequest ev =
     (case ev of LockRequest n opts \<Rightarrow> n = innerName \<and> mode opts \<noteq> None | _ \<Rightarrow> False)"

definition beforeMarker :: "event list \<Rightarrow> event list" where
  "beforeMarker evs = takeWhile (\<lambda>ev. \<not> isMarkerRequest ev) evs"

section \<open>Sample inputs\<close>

text \<open>A world with nothing locked, two entries in the file system and one database.\<close>

definition freeWorld :: world where
  "freeWorld = \<lparr>held = [], opfs = Some [''demo'', ''tmp''], idb = [''demo''], trace = []\<rparr>"

text \<open>The same world after context 1 has taken the inner lock as a shared marker.\<close>

definition busyWorld :: world where
  "busyWorld = freeWorld\<lparr>held := [(''demo-worker-inner'', 1, Shared)]\<rparr>"

text \<open>Both worlds once context 0 has been granted the outer lock.\<close>

definition outerEvents :: "event list" where
  "outerEvents =
     [LockRequest ''demo-worker-outer'' \<lparr>mode = None, ifAvailable = False\<rparr>,
      LockGranted ''demo-worker-outer'' Exclusive]"

definition freeWorld1 :: world where
  "freeWorld1 = freeWorld\<lparr>held := [(''demo-worker-outer'', 0, Exclusive)], trace := outerEvents\<rparr>"

definition busyWorld1 :: world where
  "busyWorld1 =
     busyWorld\<lparr>held := [(''demo-worker-inner'', 1, Shared), (''demo-worker-outer'', 0, Exclusive)],
       trace := outerEvents\<rparr>"

text \<open>The busy world after context 0 has also probed the inner lock in vain.\<close>

definition busyWorld2 :: world where
  "busyWorld2 =
     busyWorld1\<lparr>trace := outerEvents @
       [LockRequest ''demo-worker-inner'' \<lparr>mode = None, ifAvailable = True\<rparr>,
        LockUnavailable ''demo-worker-inner'',
        ConsoleWarn ''reset skipped because another instance already holds the lock'']\<rparr>"

text \<open>The free world after context 0 has cleared the storage under the inner lock.\<close>

definition freeWorld2 :: world where
  "freeWorld2 =
     freeWorld1\<lparr>opfs := Some [], idb := [], trace := outerEvents @
       [LockRequest ''demo-worker-inner'' \<lparr>mode = None, ifAvailable = True\<rparr>,
        LockGranted ''demo-worker-inner'' Exclusive,
        ConsoleLog ''clearing OPFS and IndexedDB'',
        LockReleased ''demo-worker-inner'']\<rparr>"

definition plainEnv :: env where
  "plainEnv = \<lparr>self = 0, searchParams = [''build'', ''config''], hasDatabases = True,
     removeFails = (\<lambda>n. False), deleteFails = (\<lambda>n. False),
     deleteBlocked = (\<lambda>n. False)\<rparr>"

definition resetEnv :: env where
  "resetEnv = plainEnv\<lparr>searchParams := [''reset'']\<rparr>"

definition exclusiveEnv :: env where
  "exclusiveEnv = plainEnv\<lparr>searchParams := [''reset'', ''exclusive'']\<rparr>"

text \<open>A platform on which the entry \<^verbatim>\<open>tmp\<close> cannot be removed.\<close>

definition failingEnv :: env where
  "failingEnv = resetEnv\<lparr>removeFails := (\<lambda>n. n = ''tmp'')\<rparr>"

text \<open>A platform on which the database \<^verbatim>\<open>demo\<close> is open elsewhere, so its deletion waits.\<close>

definition blockedEnv :: env where
  "blockedEnv = resetEnv\<lparr>deleteBlocked := (\<lambda>n. n = ''demo'')\<rparr>"

text \<open>Workers that all ask for a reset, context \<open>c\<close> running as itself.\<close>

definition resetEnvs :: "ctx \<Rightarrow> env" where
  "resetEnvs c = resetEnv\<lparr>self := c\<rparr>"

text \<open>The free world while context 0 is clearing the storage.\<close>

definition clearingWorld :: world where
  "clearingWorld =
     freeWorld\<lparr>held := [(''demo-worker-outer'', 0, Exclusive), (''demo-worker-inner'', 0, Exclusive)],
       trace := outerEvents @
         [LockRequest ''demo-worker-inner'' \<lparr>mode = None, ifAvailable = True\<rparr>,
          LockGranted ''demo-worker-inner'' Exclusive,
          ConsoleLog ''clearing OPFS and IndexedDB'']\<rparr>"

lemmas model_defs =
  maybeReset_def await_def acquireOuter_def probeAndClear_def markInUse_def
  outerLockReleaser_def requestLock_def releaseLock_def grantable_def clearStorage_def
  clearOPFS_def clearIndexedDB_def has_def markerMode_def outerName_def innerName_def
  clearingLog_def skipWarning_def Let_def

lemmas sample_defs =
  freeWorld_def busyWorld_def outerEvents_def freeWorld1_def busyWorld1_def busyWorld2_def
  freeWorld2_def plainEnv_def resetEnv_def exclusiveEnv_def failingEnv_def blockedEnv_def

section \<open>What each phase does\<close>

lemma names_distinct: "outerName \<noteq> innerName" "innerName \<noteq> outerName"
  by (simp_all add: outerName_def innerName_def)

lemma holds_iff: "holds w c n \<longleftrightarrow> (\<exists>m. (n, c, m) \<in> set (held w))"
  by (force simp: holds_def filter_empty_conv)

lemma held_releaseLock:
  "set (held (releaseLock c n w)) = {h \<in> set (held w). \<not> (fst h = n \<and> fst (snd h) = c)}"
  by (simp add: releaseLock_def)

subsection \<open>The destructive reset touches the storage and the log only\<close>

lemma held_clearOPFS: "held (snd (clearOPFS e w)) = held w"
  by (simp add: clearOPFS_def split: option.splits prod.splits)

lemma held_clearIndexedDB: "held (snd (clearIndexedDB e w)) = held w"
  by (simp add: clearIndexedDB_def Let_def split: prod.splits)

lemma trace_clearIndexedDB: "trace (snd (clearIndexedDB e w)) = trace w"
  by (simp add: clearIndexedDB_def Let_def split: prod.splits)

lemma held_clearStorage: "held (snd (clearStorage e w)) = held w"
  using held_clearOPFS [of e "w\<lparr>trace := trace w @ [ConsoleLog clearingLog]\<rparr>"]
  by (cases "clearOPFS e (w\<lparr>trace := trace w @ [ConsoleLog clearingLog]\<rparr>)")
     (auto simp: clearStorage_def await_def held_clearIndexedDB split: outcome.splits)

lemma trace_clearOPFS: "trace (snd (clearOPFS e w)) = trace w"
  by (simp add: clearOPFS_def split: option.splits prod.splits)

lemma trace_clearStorage:
  "trace (snd (clearStorage e w)) = trace w @ [ConsoleLog clearingLog]"
  using trace_clearOPFS [of e "w\<lparr>trace := trace w @ [ConsoleLog clearingLog]\<rparr>"]
  by (cases "clearOPFS e (w\<lparr>trace := trace w @ [ConsoleLog clearingLog]\<rparr>)")
     (auto simp: clearStorage_def await_def trace_clearIndexedDB split: outcome.splits)

subsection \<open>The three requests\<close>

lemma acquireOuter_cases:
  "acquireOuter e w =
     (if grantable (held w) outerName Exclusive
      then (Fulfilled,
            w\<lparr>held := held w @ [(outerName, self e, Exclusive)],
              trace := trace w @
                [LockRequest outerName \<lparr>mode = None, ifAvailable = False\<rparr>,
                 LockGranted outerName Exclusive]\<rparr>)
      else (Pending,
            w\<lparr>trace := trace w @
                [LockRequest outerName \<lparr>mode = None, ifAvailable = False\<rparr>]\<rparr>))"
  by (simp add: acquireOuter_def requestLock_def Let_def)

lemma markInUse_cases:
  "markInUse e w =
     (if grantable (held w) innerName (markerMode e)
      then (Fulfilled,
            w\<lparr>held := held w @ [(innerName, self e, markerMode e)],
              trace := trace w @
                [LockRequest innerName \<lparr>mode = Some (markerMode e), ifAvailable = True\<rparr>,
                 LockGranted innerName (markerMode e)]\<rparr>)
      else (Rejected (Error ''failed to acquire inner lock''),
            w\<lparr>trace := trace w @
                [LockRequest innerName \<lparr>mode = Some (markerMode e), ifAvailable = True\<rparr>,
                 LockUnavailable innerName]\<rparr>))"
  by (simp add: markInUse_def requestLock_def Let_def)

lemma probeAndClear_granted:
  assumes "grantable (held w) innerName Exclusive"
      and "clearStorage e
             (w\<lparr>held := held w @ [(innerName, self e, Exclusive)],
                trace := trace w @
                  [LockRequest innerName \<lparr>mode = None, ifAvailable = True\<rparr>,
                   LockGranted innerName Exclusive]\<rparr>) = (r, w2)"
  shows "probeAndClear e w =
           (if r = Pending then (Pending, w2) else (r, releaseLock (self e) innerName w2))"
  using assms
  by (cases r) (simp_all add: probeAndClear_def requestLock_def Let_def)

lemma probeAndClear_unavailable:
  assumes "\<not> grantable (held w) innerName Exclusive"
  shows "probeAndClear e w =
           (Fulfilled,
            w\<lparr>trace := trace w @
                [LockRequest innerName \<lparr>mode = None, ifAvailable = True\<rparr>,
                 LockUnavailable innerName, ConsoleWarn skipWarning]\<rparr>)"
  using assms by (simp add: probeAndClear_def requestLock_def Let_def)

lemma markInUse_not_Pending: "fst (markInUse e w) \<noteq> Pending"
  by (simp add: markInUse_cases)

lemma trace_probeAndClear:
  "trace (snd (probeAndClear e w)) = trace w @
     (if grantable (held w) innerName Exclusive
      then [LockRequest innerName \<lparr>mode = None, ifAvailable = True\<rparr>,
            LockGranted innerName Exclusive, ConsoleLog clearingLog] @
           (if fst (probeAndClear e w) = Pending then [] else [LockReleased innerName])
      else [LockRequest innerName \<lparr>mode = None, ifAvailable = True\<rparr>,
            LockUnavailable innerName, ConsoleWarn skipWarning])"
proof (cases "grantable (held w) innerName Exclusive")
  case False
  then show ?thesis
    by (simp add: probeAndClear_unavailable)
next
  case True
  let ?w = "w\<lparr>held := held w @ [(innerName, self e, Exclusive)],
               trace := trace w @
                 [LockRequest innerName \<lparr>mode = None, ifAvailable = True\<rparr>,
                  LockGranted innerName Exclusive]\<rparr>"
  obtain r w2 where c: "clearStorage e ?w = (r, w2)"
    by (cases "clearStorage e ?w")
  have "trace w2 = trace ?w @ [ConsoleLog clearingLog]"
    using trace_clearStorage [of e ?w] c by simp
  then show ?thesis
    using True by (simp add: probeAndClear_granted [OF True c] releaseLock_def)
qed

lemma held_probeAndClear:
  "set (held (snd (probeAndClear e w))) - {(innerName, self e, Exclusive)} \<subseteq> set (held w) \<and>
   {h \<in> set (held w). fst h \<noteq> innerName} \<subseteq> set (held (snd (probeAndClear e w)))"
proof (cases "grantable (held w) innerName Exclusive")
  case False
  then show ?thesis
    by (auto simp: probeAndClear_unavailable)
next
  case True
  let ?w = "w\<lparr>held := held w @ [(innerName, self e, Exclusive)],
               trace := trace w @
                 [LockRequest innerName \<lparr>mode = None, ifAvailable = True\<rparr>,
                  LockGranted innerName Exclusive]\<rparr>"
  obtain r w2 where c: "clearStorage e ?w = (r, w2)"
    by (cases "clearStorage e ?w")
  have "held w2 = held ?w"
    using held_clearStorage [of e ?w] c by simp
  then show ?thesis
    by (auto simp: probeAndClear_granted [OF True c] held_releaseLock)
qed

subsection \<open>Who holds the outer lock\<close>

lemma holds_acquireOuter:
  "acquireOuter e w = (Fulfilled, w1) \<Longrightarrow> holds w1 (self e) outerName"
  by (auto simp: acquireOuter_cases holds_iff split: if_splits)

lemma holds_probeAndClear:
  "probeAndClear e w1 = (r, w2) \<Longrightarrow> holds w2 c outerName = holds w1 c outerName"
  using held_probeAndClear [of e w1]
  by (auto simp: holds_iff names_distinct)

lemma holds_markInUse:
  "markInUse e w2 = (r, w3) \<Longrightarrow> holds w3 c outerName = holds w2 c outerName"
  by (auto simp: markInUse_cases holds_iff names_distinct split: if_splits)

lemma not_holds_outerLockReleaser:
  "\<not> holds (outerLockReleaser e w) (self e) outerName"
  by (simp add: outerLockReleaser_def holds_iff held_releaseLock)

subsection \<open>The run, phase by phase\<close>

lemma maybeReset_steps:
  assumes "has e ''reset''"
      and "acquireOuter e w = (Fulfilled, w1)"
      and "probeAndClear e w1 = (Fulfilled, w2)"
  shows "maybeReset e w = await (markInUse e w2) (\<lambda>w3. (Fulfilled, outerLockReleaser e w3))"
  using assms by (simp add: maybeReset_def await_def)

lemma maybeReset_marker_phase:
  assumes "has e ''reset''"
      and "acquireOuter e w = (Fulfilled, w1)"
      and "probeAndClear e w1 = (Fulfilled, w2)"
  shows "maybeReset e w =
     (if grantable (held w2) innerName (markerMode e)
      then (Fulfilled,
            outerLockReleaser e
              (w2\<lparr>held := held w2 @ [(innerName, self e, markerMode e)],
                  trace := trace w2 @
                    [LockRequest innerName \<lparr>mode = Some (markerMode e), ifAvailable = True\<rparr>,
                     LockGranted innerName (markerMode e)]\<rparr>))
      else (Rejected (Error ''failed to acquire inner lock''),
            w2\<lparr>trace := trace w2 @
                    [LockRequest innerName \<lparr>mode = Some (markerMode e), ifAvailable = True\<rparr>,
                     LockUnavailable innerName]\<rparr>))"
  by (simp add: maybeReset_steps [OF assms] markInUse_cases await_def)

lemma maybeReset_Fulfilled:
  assumes "has e ''reset''" and "maybeReset e w = (Fulfilled, w')"
  obtains w1 w2 w3 where
    "acquireOuter e w = (Fulfilled, w1)" and
    "probeAndClear e w1 = (Fulfilled, w2)" and
    "markInUse e w2 = (Fulfilled, w3)" and
    "w' = outerLockReleaser e w3"
  using assms by (auto simp: maybeReset_def await_def split: outcome.splits prod.splits)

lemma fulfilled_run_trace:
  assumes "has e ''reset''" and "maybeReset e w = (Fulfilled, w')"
  shows "\<exists>pre. trace w' = trace w @ pre @
            [LockRequest innerName \<lparr>mode = Some (markerMode e), ifAvailable = True\<rparr>,
             LockGranted innerName (markerMode e),
             LockReleased outerName]
          \<and> LockReleased outerName \<notin> set pre"
proof -
  from assms obtain w1 w2 w3 where
    a: "acquireOuter e w = (Fulfilled, w1)" and
    p: "probeAndClear e w1 = (Fulfilled, w2)" and
    m: "markInUse e w2 = (Fulfilled, w3)" and
    w': "w' = outerLockReleaser e w3"
    by (rule maybeReset_Fulfilled)
  have t1: "trace w1 = trace w @
      [LockRequest outerName \<lparr>mode = None, ifAvailable = False\<rparr>,
       LockGranted outerName Exclusive]"
    using a by (auto simp: acquireOuter_cases split: if_splits)
  obtain evs where t2: "trace w2 = trace w1 @ evs" and evs: "LockReleased outerName \<notin> set evs"
    using trace_probeAndClear [of e w1] p by (auto simp: names_distinct split: if_splits)
  have t3: "trace w3 = trace w2 @
      [LockRequest innerName \<lparr>mode = Some (markerMode e), ifAvailable = True\<rparr>,
       LockGranted innerName (markerMode e)]"
    using m by (auto simp: markInUse_cases split: if_splits)
  have "trace w' = trace w @
      ([LockRequest outerName \<lparr>mode = None, ifAvailable = False\<rparr>,
        LockGranted outerName Exclusive] @ evs) @
      [LockRequest innerName \<lparr>mode = Some (markerMode e), ifAvailable = True\<rparr>,
       LockGranted innerName (markerMode e), LockReleased outerName]"
    by (simp add: w' outerLockReleaser_def releaseLock_def t1 t2 t3)
  moreover have "LockReleased outerName \<notin>
      set ([LockRequest outerName \<lparr>mode = None, ifAvailable = False\<rparr>,
            LockGranted outerName Exclusive] @ evs)"
    using evs by simp
  ultimately show ?thesis by blast
qed

lemma storage_after_marker:
  "opfs (snd (await (markInUse e w2) (\<lambda>w3. (Fulfilled, outerLockReleaser e w3)))) = opfs w2 \<and>
   idb (snd (await (markInUse e w2) (\<lambda>w3. (Fulfilled, outerLockReleaser e w3)))) = idb w2"
  by (simp add: markInUse_cases await_def outerLockReleaser_def releaseLock_def)

lemma events_after_marker:
  "trace (snd (await (markInUse e w2) (\<lambda>w3. (Fulfilled, outerLockReleaser e w3)))) =
     trace w2 @
     LockRequest innerName \<lparr>mode = Some (markerMode e), ifAvailable = True\<rparr> #
     (if grantable (held w2) innerName (markerMode e)
      then [LockGranted innerName (markerMode e), LockReleased outerName]
      else [LockUnavailable innerName])"
  by (simp add: markInUse_cases await_def outerLockReleaser_def releaseLock_def)

lemma maybeReset_phases:
  "maybeReset e w =
     (if has e ''reset'' then
        await (await (acquireOuter e w) (probeAndClear e))
          (\<lambda>w2. await (markInUse e w2) (\<lambda>w3. (Fulfilled, outerLockReleaser e w3)))
      else (Fulfilled, w))"
  by (simp add: maybeReset_def await_def split: prod.splits outcome.splits)

lemma trace_before_marker:
  "\<exists>evs. trace (snd (await (acquireOuter e w) (probeAndClear e))) = trace w @ evs \<and>
         (\<forall>ev \<in> set evs. \<not> isMarkerRequest ev)"
proof (cases "grantable (held w) outerName Exclusive")
  case False
  then show ?thesis
    by (simp add: acquireOuter_cases await_def isMarkerRequest_def names_distinct)
next
  case True
  let ?w1 = "w\<lparr>held := held w @ [(outerName, self e, Exclusive)],
              trace := trace w @ [LockRequest outerName \<lparr>mode = None, ifAvailable = False\<rparr>,
                                  LockGranted outerName Exclusive]\<rparr>"
  have "await (acquireOuter e w) (probeAndClear e) = probeAndClear e ?w1"
    using True by (simp add: acquireOuter_cases await_def)
  then show ?thesis
    by (simp add: trace_probeAndClear isMarkerRequest_def names_distinct)
qed

lemma beforeMarker_run:
  assumes "has e ''reset''"
  shows "beforeMarker (eventsOf e w) =
     drop (length (trace w)) (trace (snd (await (acquireOuter e w) (probeAndClear e))))"
proof -
  obtain r2 w2 where rw: "await (acquireOuter e w) (probeAndClear e) = (r2, w2)"
    by (cases "await (acquireOuter e w) (probeAndClear e)")
  obtain evs where t: "trace w2 = trace w @ evs" and nm: "\<forall>ev \<in> set evs. \<not> isMarkerRequest ev"
    using trace_before_marker [of e w] rw by auto
  show ?thesis
  proof (cases "r2 = Fulfilled")
    case True
    then have "eventsOf e w = evs @
       LockRequest innerName \<lparr>mode = Some (markerMode e), ifAvailable = True\<rparr> #
       (if grantable (held w2) innerName (markerMode e)
        then [LockGranted innerName (markerMode e), LockReleased outerName]
        else [LockUnavailable innerName])"
      using assms rw t
      by (simp add: eventsOf_def maybeReset_phases await_def [of "(Fulfilled, w2)"]
            events_after_marker)
    then show ?thesis
      using nm by (simp add: beforeMarker_def rw t isMarkerRequest_def takeWhile_append2)
  next
    case False
    then have "maybeReset e w = (r2, w2)"
      using assms rw by (cases r2) (simp_all add: maybeReset_phases await_def)
    then show ?thesis
      using nm by (simp add: beforeMarker_def eventsOf_def rw t)
  qed
qed

lemma storage_run:
  assumes "has e ''reset''"
  shows "opfs (snd (maybeReset e w)) = opfs (snd (await (acquireOuter e w) (probeAndClear e))) \<and>
         idb (snd (maybeReset e w)) = idb (snd (await (acquireOuter e w) (probeAndClear e)))"
proof -
  obtain r2 w2 where rw: "await (acquireOuter e w) (probeAndClear e) = (r2, w2)"
    by (cases "await (acquireOuter e w) (probeAndClear e)")
  show ?thesis
    using assms storage_after_marker [of e w2]
    by (cases r2) (simp_all add: maybeReset_phases rw await_def [of "(_, w2)"])
qed

subsection \<open>The phases before the marker do not read the search parameters\<close>

lemma acquireOuter_params:
  "acquireOuter (e\<lparr>searchParams := ps\<rparr>) = acquireOuter e"
  by (simp add: acquireOuter_def fun_eq_iff)

lemma clearOPFS_params:
  "clearOPFS (e\<lparr>searchParams := ps\<rparr>) = clearOPFS e"
  by (simp add: clearOPFS_def fun_eq_iff cong: option.case_cong)

lemma clearIndexedDB_params:
  "clearIndexedDB (e\<lparr>searchParams := ps\<rparr>) = clearIndexedDB e"
  by (simp add: clearIndexedDB_def fun_eq_iff)

lemma clearStorage_params:
  "clearStorage (e\<lparr>searchParams := ps\<rparr>) = clearStorage e"
  by (simp add: clearStorage_def clearOPFS_params clearIndexedDB_params fun_eq_iff)

lemma probeAndClear_params:
  "probeAndClear (e\<lparr>searchParams := ps\<rparr>) = probeAndClear e"
  by (simp add: probeAndClear_def clearStorage_params fun_eq_iff
        cong: prod.case_cong grant.case_cong outcome.case_cong)

subsection \<open>The sample runs\<close>

lemma sample_has:
  "has resetEnv ''reset''" "has exclusiveEnv ''reset''" "has failingEnv ''reset''"
  "\<not> has plainEnv ''reset''" "\<not> has resetEnv ''exclusive''" "has exclusiveEnv ''exclusive''"
  by (simp_all add: has_def sample_defs)

lemma sample_acquireOuter:
  "acquireOuter resetEnv freeWorld = (Fulfilled, freeWorld1)"
  "acquireOuter failingEnv freeWorld = (Fulfilled, freeWorld1)"
  "acquireOuter resetEnv busyWorld = (Fulfilled, busyWorld1)"
  "acquireOuter exclusiveEnv busyWorld = (Fulfilled, busyWorld1)"
  "acquireOuter exclusiveEnv freeWorld = (Fulfilled, freeWorld1)"
  by (simp_all add: model_defs sample_defs)

lemma sample_probeAndClear:
  "probeAndClear resetEnv freeWorld1 = (Fulfilled, freeWorld2)"
  "probeAndClear resetEnv busyWorld1 = (Fulfilled, busyWorld2)"
  "probeAndClear exclusiveEnv busyWorld1 = (Fulfilled, busyWorld2)"
  "probeAndClear exclusiveEnv freeWorld1 = (Fulfilled, freeWorld2)"
  by (simp_all add: model_defs sample_defs)

lemma sample_probe_fails:
  "probeAndClear failingEnv freeWorld1 =
     (Rejected (RemoveEntryFailed ''tmp''),
      freeWorld1\<lparr>opfs := Some [''tmp''], trace := outerEvents @
        [LockRequest innerName \<lparr>mode = None, ifAvailable = True\<rparr>,
         LockGranted innerName Exclusive,
         ConsoleLog clearingLog,
         LockReleased innerName]\<rparr>)"
  by (simp add: model_defs sample_defs)

lemma sample_blocked:
  "self blockedEnv = 0"
  "probeAndClear blockedEnv freeWorld1 =
     (Pending,
      freeWorld1\<lparr>held := [(outerName, 0, Exclusive), (innerName, 0, Exclusive)],
        opfs := Some [], trace := outerEvents @
        [LockRequest innerName \<lparr>mode = None, ifAvailable = True\<rparr>,
         LockGranted innerName Exclusive,
         ConsoleLog clearingLog]\<rparr>)"
  by (simp_all add: model_defs sample_defs)

lemma sample_requests:
  "fst (requestLock 0 innerName \<lparr>mode = None, ifAvailable = True\<rparr> freeWorld1) = Lock Exclusive"
  "fst (requestLock 0 innerName \<lparr>mode = None, ifAvailable = True\<rparr> busyWorld1) = Null"
  "fst (requestLock 0 innerName \<lparr>mode = Some Exclusive, ifAvailable = True\<rparr> busyWorld2) = Null"
  by (simp_all add: model_defs sample_defs)

lemma sample_trace: "trace freeWorld = []" "trace busyWorld = []"
  by (simp_all add: sample_defs)

lemma sample_self:
  "self resetEnv = 0" "self exclusiveEnv = 0" "self failingEnv = 0"
  "markerMode resetEnv = Shared" "markerMode exclusiveEnv = Exclusive"
  by (simp_all add: markerMode_def has_def sample_defs)

lemma run_reset_free:
  "maybeReset resetEnv freeWorld =
     (Fulfilled,
      \<lparr>held = [(innerName, 0, Shared)], opfs = Some [], idb = [],
       trace =
         [LockRequest outerName \<lparr>mode = None, ifAvailable = False\<rparr>,
          LockGranted outerName Exclusive,
          LockRequest innerName \<lparr>mode = None, ifAvailable = True\<rparr>,
          LockGranted innerName Exclusive,
          ConsoleLog clearingLog,
          LockReleased innerName,
          LockRequest innerName \<lparr>mode = Some Shared, ifAvailable = True\<rparr>,
          LockGranted innerName Shared,
          LockReleased outerName]\<rparr>)"
  by (simp add: model_defs sample_defs)

lemma run_reset_busy:
  "maybeReset resetEnv busyWorld =
     (Fulfilled,
      \<lparr>held = [(innerName, 1, Shared), (innerName, 0, Shared)],
       opfs = Some [''demo'', ''tmp''], idb = [''demo''],
       trace =
         [LockRequest outerName \<lparr>mode = None, ifAvailable = False\<rparr>,
          LockGranted outerName Exclusive,
          LockRequest innerName \<lparr>mode = None, ifAvailable = True\<rparr>,
          LockUnavailable innerName,
          ConsoleWarn skipWarning,
          LockRequest innerName \<lparr>mode = Some Shared, ifAvailable = True\<rparr>,
          LockGranted innerName Shared,
          LockReleased outerName]\<rparr>)"
  by (simp add: model_defs sample_defs)

lemma run_exclusive_busy:
  "maybeReset exclusiveEnv busyWorld =
     (Rejected (Error ''failed to acquire inner lock''),
      \<lparr>held = [(innerName, 1, Shared), (outerName, 0, Exclusive)],
       opfs = Some [''demo'', ''tmp''], idb = [''demo''],
       trace =
         [LockRequest outerName \<lparr>mode = None, ifAvailable = False\<rparr>,
          LockGranted outerName Exclusive,
          LockRequest innerName \<lparr>mode = None, ifAvailable = True\<rparr>,
          LockUnavailable innerName,
          ConsoleWarn skipWarning,
          LockRequest innerName \<lparr>mode = Some Exclusive, ifAvailable = True\<rparr>,
          LockUnavailable innerName]\<rparr>)"
  by (simp add: model_defs sample_defs)

lemma run_exclusive_free:
  "maybeReset exclusiveEnv freeWorld =
     (Fulfilled,
      \<lparr>held = [(innerName, 0, Exclusive)], opfs = Some [], idb = [],
       trace =
         [LockRequest outerName \<lparr>mode = None, ifAvailable = False\<rparr>,
          LockGranted outerName Exclusive,
          LockRequest innerName \<lparr>mode = None, ifAvailable = True\<rparr>,
          LockGranted innerName Exclusive,
          ConsoleLog clearingLog,
          LockReleased innerName,
          LockRequest innerName \<lparr>mode = Some Exclusive, ifAvailable = True\<rparr>,
          LockGranted innerName Exclusive,
          LockReleased outerName]\<rparr>)"
  by (simp add: model_defs sample_defs)

lemma run_failing_free:
  "maybeReset failingEnv freeWorld =
     (Rejected (RemoveEntryFailed ''tmp''),
      \<lparr>held = [(outerName, 0, Exclusive)], opfs = Some [''tmp''], idb = [''demo''],
       trace =
         [LockRequest outerName \<lparr>mode = None, ifAvailable = False\<rparr>,
          LockGranted outerName Exclusive,
          LockRequest innerName \<lparr>mode = None, ifAvailable = True\<rparr>,
          LockGranted innerName Exclusive,
          ConsoleLog clearingLog,
          LockReleased innerName]\<rparr>)"
  by (simp add: model_defs sample_defs)

section \<open>No reset requested\<close>

text \<open>
  C6. When the search parameters have no \<^verbatim>\<open>reset\<close> key the run is fulfilled and leaves
  the world exactly as it found it: no lock is requested or held, nothing is logged,
  and the storage is untouched.
\<close>

theorem C6_no_reset_no_effect:
  assumes "\<not> has e ''reset''"
  shows "maybeReset e w = (Fulfilled, w)"
  using assms by (simp add: maybeReset_def)

theorem C6_no_reset_no_effect_witness:
  "\<not> has plainEnv ''reset'' \<and> maybeReset plainEnv busyWorld = (Fulfilled, busyWorld)"
proof -
  have h: "\<not> has plainEnv ''reset''"
    by (rule sample_has)
  show ?thesis
    using h C6_no_reset_no_effect [OF h, of busyWorld] by simp
qed

section \<open>The outer lock when the run ends\<close>

text \<open>
  C1 as stated does not hold. When the removal of an entry fails under the inner lock,
  and when the marker is not available, the run is rejected and its context still
  holds the outer lock: \<^verbatim>\<open>outerLockReleaser\<close> is called on the last line only, which
  no rejected \<^verbatim>\<open>await\<close> reaches.
\<close>

theorem C1_outer_lock_held_after_failure:
  "has failingEnv ''reset''
   \<and> fst (maybeReset failingEnv freeWorld) = Rejected (RemoveEntryFailed ''tmp'')
   \<and> holds (snd (maybeReset failingEnv freeWorld)) (self failingEnv) outerName
   \<and> has exclusiveEnv ''reset''
   \<and> fst (maybeReset exclusiveEnv busyWorld) = Rejected (Error ''failed to acquire inner lock'')
   \<and> holds (snd (maybeReset exclusiveEnv busyWorld)) (self exclusiveEnv) outerName"
  by (simp add: sample_has sample_self run_failing_free run_exclusive_busy holds_def
        outerName_def innerName_def)

text \<open>
  C1, amended. For every run with a reset requested: a run that is fulfilled (the reset
  done or skipped, the marker granted) has released the outer lock when it returns; a
  run that is rejected returns with the outer lock still held by its context.
\<close>

theorem C1_outer_lock_released_on_success_only:
  assumes "has e ''reset''" and "maybeReset e w = (r, w')"
  shows "(r = Fulfilled \<longrightarrow> \<not> holds w' (self e) outerName) \<and>
         (\<forall>err. r = Rejected err \<longrightarrow> holds w' (self e) outerName)"
proof -
  obtain r1 w1 where a: "acquireOuter e w = (r1, w1)" by (cases "acquireOuter e w")
  obtain r2 w2 where p: "probeAndClear e w1 = (r2, w2)" by (cases "probeAndClear e w1")
  obtain r3 w3 where m: "markInUse e w2 = (r3, w3)" by (cases "markInUse e w2")
  have r1: "r1 = Fulfilled \<or> r1 = Pending"
    using a by (auto simp: acquireOuter_cases split: if_splits)
  show ?thesis
  proof (cases "r1 = Fulfilled")
    case False
    then have "r = Pending"
      using assms a r1 by (auto simp: maybeReset_def await_def)
    then show ?thesis by simp
  next
    case True
    then have h1: "holds w1 (self e) outerName"
      using a holds_acquireOuter by simp
    then have h2: "holds w2 (self e) outerName"
      using holds_probeAndClear [OF p] by simp
    then have h3: "holds w3 (self e) outerName"
      using holds_markInUse [OF m] by simp
    show ?thesis
    proof (cases r2)
      case Fulfilled
      show ?thesis
      proof (cases r3)
        case Fulfilled
        then have "r = Fulfilled" "w' = outerLockReleaser e w3"
          using assms a p m True \<open>r2 = Fulfilled\<close> by (auto simp: maybeReset_def await_def)
        then show ?thesis by (simp add: not_holds_outerLockReleaser)
      next
        case (Rejected err)
        then have "r = Rejected err" "w' = w3"
          using assms a p m True \<open>r2 = Fulfilled\<close> by (auto simp: maybeReset_def await_def)
        then show ?thesis using h3 by simp
      next
        case Pending
        then show ?thesis using m markInUse_not_Pending [of e w2] by simp
      qed
    next
      case (Rejected err)
      then have "r = Rejected err" "w' = w2"
        using assms a p True by (auto simp: maybeReset_def await_def)
      then show ?thesis using h2 by simp
    next
      case Pending
      then have "r = Pending"
        using assms a p True by (auto simp: maybeReset_def await_def)
      then show ?thesis by simp
    qed
  qed
qed

theorem C1_outer_lock_released_on_success_only_witness:
  "has resetEnv ''reset''
   \<and> fst (maybeReset resetEnv freeWorld) = Fulfilled
   \<and> \<not> holds (snd (maybeReset resetEnv freeWorld)) (self resetEnv) outerName"
proof -
  have h: "has resetEnv ''reset''"
    by (rule sample_has)
  have f: "fst (maybeReset resetEnv freeWorld) = Fulfilled"
    by (simp add: run_reset_free)
  have r: "maybeReset resetEnv freeWorld = (Fulfilled, snd (maybeReset resetEnv freeWorld))"
    by (metis f prod.collapse)
  show ?thesis
    using h f C1_outer_lock_released_on_success_only [OF h r] by simp
qed

section \<open>The marker request\<close>

text \<open>
  C2 as stated does not hold. With \<^verbatim>\<open>reset\<close> and \<^verbatim>\<open>exclusive\<close> given while another
  context holds the inner lock as a shared marker, the marker is requested with
  \<^verbatim>\<open>ifAvailable: true\<close>, the broker answers at once that it is unavailable, and the run
  is rejected instead of waiting.
\<close>

theorem C2_marker_request_fails_without_waiting:
  "has exclusiveEnv ''reset''
   \<and> eventsOf exclusiveEnv busyWorld =
       [LockRequest outerName \<lparr>mode = None, ifAvailable = False\<rparr>,
        LockGranted outerName Exclusive,
        LockRequest innerName \<lparr>mode = None, ifAvailable = True\<rparr>,
        LockUnavailable innerName,
        ConsoleWarn skipWarning,
        LockRequest innerName \<lparr>mode = Some Exclusive, ifAvailable = True\<rparr>,
        LockUnavailable innerName]
   \<and> fst (maybeReset exclusiveEnv busyWorld) = Rejected (Error ''failed to acquire inner lock'')"
  by (simp add: sample_has eventsOf_def run_exclusive_busy sample_trace)

text \<open>
  C2, amended. For every run that reaches the marker phase, the inner lock is requested
  there with a non-blocking attempt (\<^verbatim>\<open>ifAvailable: true\<close>) in the caller's mode. When
  the broker answers that the lock is unavailable the run does not wait: it is rejected
  with the error \<^verbatim>\<open>failed to acquire inner lock\<close>, in the world the request left.
  Otherwise the run is fulfilled.
\<close>

theorem C2_marker_request_is_a_probe:
  assumes "has e ''reset''"
      and "acquireOuter e w = (Fulfilled, w1)"
      and "probeAndClear e w1 = (Fulfilled, w2)"
  shows "trace (snd (maybeReset e w)) ! length (trace w2) =
           LockRequest innerName \<lparr>mode = Some (markerMode e), ifAvailable = True\<rparr>
       \<and> (fst (requestLock (self e) innerName
                 \<lparr>mode = Some (markerMode e), ifAvailable = True\<rparr> w2) = Null \<longrightarrow>
            maybeReset e w =
              (Rejected (Error ''failed to acquire inner lock''),
               snd (requestLock (self e) innerName
                      \<lparr>mode = Some (markerMode e), ifAvailable = True\<rparr> w2)))
       \<and> (fst (requestLock (self e) innerName
                 \<lparr>mode = Some (markerMode e), ifAvailable = True\<rparr> w2) \<noteq> Null \<longrightarrow>
            fst (maybeReset e w) = Fulfilled)"
  unfolding maybeReset_marker_phase [OF assms]
  by (simp add: requestLock_def Let_def outerLockReleaser_def releaseLock_def nth_append)

theorem C2_marker_request_is_a_probe_witness:
  "has exclusiveEnv ''reset''
   \<and> acquireOuter exclusiveEnv busyWorld = (Fulfilled, busyWorld1)
   \<and> probeAndClear exclusiveEnv busyWorld1 = (Fulfilled, busyWorld2)
   \<and> fst (requestLock (self exclusiveEnv) innerName
            \<lparr>mode = Some (markerMode exclusiveEnv), ifAvailable = True\<rparr> busyWorld2) = Null
   \<and> fst (maybeReset exclusiveEnv busyWorld) = Rejected (Error ''failed to acquire inner lock'')"
proof -
  have h: "has exclusiveEnv ''reset''"
    by (rule sample_has)
  have a: "acquireOuter exclusiveEnv busyWorld = (Fulfilled, busyWorld1)"
    by (rule sample_acquireOuter)
  have p: "probeAndClear exclusiveEnv busyWorld1 = (Fulfilled, busyWorld2)"
    by (rule sample_probeAndClear)
  have n: "fst (requestLock (self exclusiveEnv) innerName
            \<lparr>mode = Some (markerMode exclusiveEnv), ifAvailable = True\<rparr> busyWorld2) = Null"
    by (simp add: sample_self sample_requests)
  show ?thesis
    using h a p n C2_marker_request_is_a_probe [OF h a p] by simp
qed

section \<open>The order of the marker request and the release of the outer lock\<close>




section \<open>One worker clears at a time\<close>

lemma held_clearing: "held (snd (await (clearOPFS e w) (clearIndexedDB e))) = held w"
  using held_clearOPFS [of e w]
  by (cases "clearOPFS e w") (auto simp: await_def held_clearIndexedDB split: outcome.splits)

text \<open>
  A context that runs alone from the start does what \<^verbatim>\<open>maybeReset\<close> does, whenever
  \<^verbatim>\<open>maybeReset\<close> returns.
\<close>

lemma solo_run:
  assumes "fst (maybeReset e w) \<noteq> Pending"
  shows "runCtx 5 e (AtStart, w) = (Ended (fst (maybeReset e w)), snd (maybeReset e w))"
proof (cases "has e ''reset''")
  case False
  then show ?thesis
    by (simp add: eval_nat_numeral stepCtx_def maybeReset_def)
next
  case True
  have g: "grantable (held w) outerName Exclusive"
  proof (rule ccontr)
    assume "\<not> grantable (held w) outerName Exclusive"
    then have "fst (maybeReset e w) = Pending"
      using True by (simp add: maybeReset_def await_def acquireOuter_cases)
    with assms show False by simp
  qed
  obtain w1 where a: "acquireOuter e w = (Fulfilled, w1)"
    using g by (simp add: acquireOuter_cases)
  show ?thesis
  proof (cases "grantable (held w1) innerName Exclusive")
    case False
    then show ?thesis
      using True a
      by (simp add: eval_nat_numeral stepCtx_def maybeReset_def await_def
            probeAndClear_unavailable requestLock_def Let_def markInUse_cases)
  next
    case g1: True
    let ?w1 = "w1\<lparr>held := held w1 @ [(innerName, self e, Exclusive)],
                   trace := trace w1 @
                     [LockRequest innerName \<lparr>mode = None, ifAvailable = True\<rparr>,
                      LockGranted innerName Exclusive]\<rparr>"
    obtain r2 w2 where c: "clearStorage e ?w1 = (r2, w2)" by (cases "clearStorage e ?w1")
    have np: "r2 \<noteq> Pending"
    proof
      assume "r2 = Pending"
      then have "probeAndClear e w1 = (Pending, w2)"
        using probeAndClear_granted [OF g1 c] by simp
      then have "fst (maybeReset e w) = Pending"
        using True a by (simp add: maybeReset_def await_def)
      with assms show False by simp
    qed
    have pc: "probeAndClear e w1 = (r2, releaseLock (self e) innerName w2)"
      using probeAndClear_granted [OF g1 c] np by simp
    have c': "await (clearOPFS e (?w1\<lparr>trace := trace ?w1 @ [ConsoleLog clearingLog]\<rparr>))
                (clearIndexedDB e) = (r2, w2)"
      using c by (simp add: clearStorage_def)
    show ?thesis
      using True a g1 pc c' np
      by (cases r2)
         (simp_all add: eval_nat_numeral stepCtx_def maybeReset_def await_def [of "(_, _)"]
            requestLock_def Let_def markInUse_cases)
  qed
qed

subsection \<open>The broker keeps exclusive locks exclusive\<close>

lemma grantable_Exclusive_iff: "grantable hs n Exclusive \<longleftrightarrow> (\<forall>h \<in> set hs. fst h \<noteq> n)"
  by (simp add: grantable_def filter_empty_conv)

lemma grantable_Shared_iff:
  "grantable hs n Shared \<longleftrightarrow> (\<forall>h \<in> set hs. fst h = n \<longrightarrow> snd (snd h) = Shared)"
  by (auto simp: grantable_def filter_empty_conv intro: lock_mode.exhaust)

lemma exclusiveRespected_grant:
  assumes "exclusiveRespected hs" and "grantable hs n m"
  shows "exclusiveRespected (hs @ [(n, c, m)])"
proof (cases m)
  case Exclusive
  then have none: "\<forall>h \<in> set hs. fst h \<noteq> n"
    using assms(2) by (simp add: grantable_Exclusive_iff)
  then have "[h \<leftarrow> hs. fst h = n] = []"
    by (simp add: filter_empty_conv)
  then show ?thesis
    using assms(1) none Exclusive by (fastforce simp: exclusiveRespected_def)
next
  case Shared
  then have "\<forall>h \<in> set hs. fst h = n \<longrightarrow> snd (snd h) = Shared"
    using assms(2) by (simp add: grantable_Shared_iff)
  then show ?thesis
    using assms(1) Shared by (fastforce simp: exclusiveRespected_def)
qed

lemma exclusiveRespected_release:
  assumes "exclusiveRespected hs"
  shows "exclusiveRespected (filter P hs)"
  unfolding exclusiveRespected_def
proof (intro allI impI)
  fix n' c'
  assume "(n', c', Exclusive) \<in> set (filter P hs)"
  then have mem: "(n', c', Exclusive) \<in> set hs" and keep: "P (n', c', Exclusive)"
    by auto
  from assms mem have "[h \<leftarrow> hs. fst h = n'] = [(n', c', Exclusive)]"
    by (simp add: exclusiveRespected_def)
  then have "filter P [h \<leftarrow> hs. fst h = n'] = [(n', c', Exclusive)]"
    using keep by simp
  then show "[h \<leftarrow> filter P hs. fst h = n'] = [(n', c', Exclusive)]"
    by (simp add: conj_commute)
qed

lemma exclusive_holder_unique:
  assumes "exclusiveRespected hs" "(n, c, Exclusive) \<in> set hs" "(n, c', m) \<in> set hs"
  shows "c' = c"
proof -
  have "[h \<leftarrow> hs. fst h = n] = [(n, c, Exclusive)]"
    using assms(1,2) by (simp add: exclusiveRespected_def)
  moreover have "(n, c', m) \<in> set [h \<leftarrow> hs. fst h = n]"
    using assms(3) by simp
  ultimately show ?thesis by simp
qed

subsection \<open>What a step does to the held locks\<close>

lemma stepCtx_held:
  assumes "stepCtx e p w = Some (p', w')"
  shows "(held w' = held w \<and> p' \<noteq> Clearing \<and> (holdsOuterAt p' \<longrightarrow> holdsOuterAt p))
       \<or> (p = AtStart \<and> p' = Probing \<and> grantable (held w) outerName Exclusive
           \<and> held w' = held w @ [(outerName, self e, Exclusive)])
       \<or> (p = Probing \<and> p' = Clearing \<and> grantable (held w) innerName Exclusive
           \<and> held w' = held w @ [(innerName, self e, Exclusive)])
       \<or> (p = Clearing \<and> p' \<noteq> Clearing \<and>
           held w' = [h \<leftarrow> held w. \<not> (fst h = innerName \<and> fst (snd h) = self e)])
       \<or> (p = Marking \<and> p' = Releasing \<and> grantable (held w) innerName (markerMode e)
           \<and> held w' = held w @ [(innerName, self e, markerMode e)])
       \<or> (p = Releasing \<and> p' = Ended Fulfilled \<and>
           held w' = [h \<leftarrow> held w. \<not> (fst h = outerName \<and> fst (snd h) = self e)])"
proof (cases p)
  case AtStart
  then show ?thesis
    using assms
    by (auto simp: stepCtx_def acquireOuter_cases holdsOuterAt_def split: if_splits)
next
  case Probing
  then show ?thesis
    using assms
    by (auto simp: stepCtx_def requestLock_def Let_def holdsOuterAt_def split: if_splits)
next
  case Clearing
  obtain r2 w2 where c: "await (clearOPFS e w) (clearIndexedDB e) = (r2, w2)"
    by (cases "await (clearOPFS e w) (clearIndexedDB e)")
  have "held w2 = held w" using held_clearing [of e w] c by simp
  then show ?thesis
    using assms Clearing c
    by (cases r2) (auto simp: stepCtx_def releaseLock_def)
next
  case Marking
  then show ?thesis
    using assms
    by (auto simp: stepCtx_def markInUse_cases holdsOuterAt_def split: if_splits)
next
  case Releasing
  then show ?thesis
    using assms by (auto simp: stepCtx_def outerLockReleaser_def releaseLock_def)
next
  case (Ended r)
  then show ?thesis
    using assms by (simp add: stepCtx_def)
next
  case Closed
  then show ?thesis
    using assms by (simp add: stepCtx_def)
qed

subsection \<open>The invariant\<close>

lemma lockInvariant_move:
  assumes inv: "lockInvariant s"
      and self: "self (envs c) = c"
      and st: "stepCtx (envs c) (pcs s c) (shared s) = Some (p', w')"
  shows "lockInvariant \<lparr>pcs = (pcs s)(c := p'), shared = w'\<rparr>"
proof -
  let ?hs = "held (shared s)"
  have ex: "exclusiveRespected ?hs"
    and cl: "\<And>d. pcs s d = Clearing \<Longrightarrow> (innerName, d, Exclusive) \<in> set ?hs"
    and ou: "\<And>d. holdsOuterAt (pcs s d) \<Longrightarrow> (outerName, d, Exclusive) \<in> set ?hs"
    using inv by (simp_all add: lockInvariant_def)
  from stepCtx_held [OF st] consider
      (same) "held w' = ?hs" "p' \<noteq> Clearing" "holdsOuterAt p' \<longrightarrow> holdsOuterAt (pcs s c)"
    | (outer) "p' = Probing" "grantable ?hs outerName Exclusive"
        "held w' = ?hs @ [(outerName, c, Exclusive)]"
    | (probe) "pcs s c = Probing" "p' = Clearing" "grantable ?hs innerName Exclusive"
        "held w' = ?hs @ [(innerName, c, Exclusive)]"
    | (cleared) "pcs s c = Clearing" "p' \<noteq> Clearing"
        "held w' = [h \<leftarrow> ?hs. \<not> (fst h = innerName \<and> fst (snd h) = c)]"
    | (marked) "pcs s c = Marking" "p' = Releasing"
        "grantable ?hs innerName (markerMode (envs c))"
        "held w' = ?hs @ [(innerName, c, markerMode (envs c))]"
    | (released) "pcs s c = Releasing" "p' = Ended Fulfilled"
        "held w' = [h \<leftarrow> ?hs. \<not> (fst h = outerName \<and> fst (snd h) = c)]"
    using self by auto
  then show ?thesis
  proof cases
    case same
    then show ?thesis
      using ex cl ou by (auto simp: lockInvariant_def)
  next
    case outer
    then show ?thesis
      using exclusiveRespected_grant [OF ex outer(2), of c] cl ou
      by (auto simp: lockInvariant_def holdsOuterAt_def)
  next
    case probe
    then show ?thesis
      using exclusiveRespected_grant [OF ex probe(3), of c] cl ou
      by (auto simp: lockInvariant_def holdsOuterAt_def)
  next
    case cleared
    have "holdsOuterAt p' \<longrightarrow> holdsOuterAt (pcs s c)"
      using cleared(1) by (simp add: holdsOuterAt_def)
    then show ?thesis
      using exclusiveRespected_release
              [OF ex, of "\<lambda>h. \<not> (fst h = innerName \<and> fst (snd h) = c)"] cl ou cleared
      by (auto simp: lockInvariant_def names_distinct)
  next
    case marked
    then show ?thesis
      using exclusiveRespected_grant [OF ex marked(3), of c] cl ou
      by (auto simp: lockInvariant_def holdsOuterAt_def)
  next
    case released
    then show ?thesis
      using exclusiveRespected_release
              [OF ex, of "\<lambda>h. \<not> (fst h = outerName \<and> fst (snd h) = c)"] cl ou
      by (auto simp: lockInvariant_def holdsOuterAt_def names_distinct)
  qed
qed

lemma lockInvariant_act:
  assumes "\<forall>c. self (envs c) = c" and "lockInvariant s"
  shows "lockInvariant (act envs s a)"
proof (cases a)
  case (Move c)
  show ?thesis
  proof (cases "stepCtx (envs c) (pcs s c) (shared s)")
    case None
    then show ?thesis
      using assms(2) Move by (simp add: act_def)
  next
    case (Some pw)
    then obtain p' w' where "stepCtx (envs c) (pcs s c) (shared s) = Some (p', w')"
      by (cases pw) simp
    then show ?thesis
      using lockInvariant_move [OF assms(2), of envs c p' w'] assms(1) Move
      by (simp add: act_def)
  qed
next
  case (Close c)
  then show ?thesis
    using assms(2) exclusiveRespected_release [of "held (shared s)" "\<lambda>h. fst (snd h) \<noteq> c"]
    by (auto simp: act_def lockInvariant_def holdsOuterAt_def)
qed

lemma lockInvariant_runAll:
  assumes "\<forall>c. self (envs c) = c" and "lockInvariant s"
  shows "lockInvariant (runAll envs schedule s)"
  using assms(2)
proof (induction schedule arbitrary: s)
  case Nil
  then show ?case by (simp add: runAll_def)
next
  case (Cons a schedule)
  have "lockInvariant (act envs s a)"
    using assms(1) Cons.prems by (rule lockInvariant_act)
  then have "lockInvariant (runAll envs schedule (act envs s a))"
    by (rule Cons.IH)
  then show ?case by (simp add: runAll_def)
qed

lemma lockInvariant_initial: "held w = [] \<Longrightarrow> lockInvariant (initial w)"
  by (simp add: initial_def lockInvariant_def exclusiveRespected_def holdsOuterAt_def)

text \<open>
  C4. Let any number of contexts run \<^verbatim>\<open>maybeReset\<close>, each under its own identity,
  starting with no lock held, their steps interleaved by any schedule. Whenever one
  context is inside the callback that clears the storage, no other context is inside
  it, and no other context is anywhere between the grant of the outer lock and its
  release: the outer lock admits one context at a time to the probe and the clearing.
\<close>

theorem C4_one_context_clears_at_a_time:
  assumes "\<forall>c. self (envs c) = c"
      and "held w = []"
      and "pcs (runAll envs schedule (initial w)) c = Clearing"
      and "c' \<noteq> c"
  shows "pcs (runAll envs schedule (initial w)) c' \<noteq> Clearing
       \<and> \<not> holdsOuterAt (pcs (runAll envs schedule (initial w)) c')"
proof -
  let ?s = "runAll envs schedule (initial w)"
  have "lockInvariant ?s"
    using assms(1) lockInvariant_initial [OF assms(2)] by (rule lockInvariant_runAll)
  then have ex: "exclusiveRespected (held (shared ?s))"
    and ou: "\<And>d. holdsOuterAt (pcs ?s d) \<Longrightarrow> (outerName, d, Exclusive) \<in> set (held (shared ?s))"
    by (simp_all add: lockInvariant_def)
  have "holdsOuterAt (pcs ?s c)"
    using assms(3) by (simp add: holdsOuterAt_def)
  then have o: "(outerName, c, Exclusive) \<in> set (held (shared ?s))"
    by (rule ou)
  have "\<not> holdsOuterAt (pcs ?s c')"
  proof
    assume "holdsOuterAt (pcs ?s c')"
    then have "(outerName, c', Exclusive) \<in> set (held (shared ?s))" by (rule ou)
    then show False
      using exclusive_holder_unique [OF ex o] assms(4) by blast
  qed
  then show ?thesis
    by (auto simp: holdsOuterAt_def)
qed

lemma sample_schedule:
  "runAll resetEnvs [Move 0, Move 1, Move 0, Move 1] (initial freeWorld) =
     \<lparr>pcs = (\<lambda>c. AtStart)(0 := Clearing), shared = clearingWorld\<rparr>"
proof -
  have s1: "stepCtx (resetEnvs 0) AtStart freeWorld = Some (Probing, freeWorld1)"
    by (simp add: stepCtx_def resetEnvs_def model_defs sample_defs)
  have b1: "stepCtx (resetEnvs (Suc 0)) AtStart freeWorld1 = None"
    by (simp add: stepCtx_def resetEnvs_def model_defs sample_defs)
  have s2: "stepCtx (resetEnvs 0) Probing freeWorld1 = Some (Clearing, clearingWorld)"
    by (simp add: stepCtx_def resetEnvs_def clearingWorld_def model_defs sample_defs)
  have b2: "stepCtx (resetEnvs (Suc 0)) AtStart clearingWorld = None"
    by (simp add: stepCtx_def resetEnvs_def clearingWorld_def model_defs sample_defs)
  show ?thesis
    by (simp add: runAll_def act_def initial_def s1 b1 s2 b2)
qed

theorem C4_one_context_clears_at_a_time_witness:
  "(\<forall>c. self (resetEnvs c) = c)
   \<and> held freeWorld = []
   \<and> pcs (runAll resetEnvs [Move 0, Move 1, Move 0, Move 1] (initial freeWorld)) 0 = Clearing
   \<and> (1::nat) \<noteq> 0
   \<and> pcs (runAll resetEnvs [Move 0, Move 1, Move 0, Move 1] (initial freeWorld)) 1 \<noteq> Clearing
   \<and> \<not> holdsOuterAt (pcs (runAll resetEnvs [Move 0, Move 1, Move 0, Move 1] (initial freeWorld)) 1)"
proof -
  have ids: "\<forall>c. self (resetEnvs c) = c"
    by (simp add: resetEnvs_def)
  have h0: "held freeWorld = []"
    by (simp add: freeWorld_def)
  have p0: "pcs (runAll resetEnvs [Move 0, Move 1, Move 0, Move 1] (initial freeWorld)) 0 = Clearing"
    by (subst sample_schedule) simp
  have ne: "(1::nat) \<noteq> 0"
    by simp
  show ?thesis
    using ids h0 p0 ne C4_one_context_clears_at_a_time [OF ids h0 p0 ne] by blast
qed

section \<open>The probe finds the inner lock taken\<close>




section \<open>The marker is kept\<close>

text \<open>
  C7. For every run with a reset requested that is fulfilled: the context holds the
  inner lock in the marker mode when the run returns; after the grant of the marker
  the run does nothing but release the outer lock, so it never releases the marker;
  and in the world the run leaves, the probe of any context (a request for the inner
  lock with \<^verbatim>\<open>{ ifAvailable: true }\<close>) is answered with unavailable.
\<close>

theorem C7_marker_is_kept:
  assumes "has e ''reset''" and "maybeReset e w = (Fulfilled, w')"
  shows "(innerName, self e, markerMode e) \<in> set (held w')
       \<and> (\<exists>pre. trace w' = trace w @ pre @
              [LockGranted innerName (markerMode e), LockReleased outerName])
       \<and> (\<forall>c. fst (requestLock c innerName \<lparr>mode = None, ifAvailable = True\<rparr> w') = Null)"
proof -
  from assms obtain w1 w2 w3 where
    a: "acquireOuter e w = (Fulfilled, w1)" and
    p: "probeAndClear e w1 = (Fulfilled, w2)" and
    m: "markInUse e w2 = (Fulfilled, w3)" and
    w': "w' = outerLockReleaser e w3"
    by (rule maybeReset_Fulfilled)
  have h3: "held w3 = held w2 @ [(innerName, self e, markerMode e)]"
    using m by (auto simp: markInUse_cases split: if_splits)
  have kept: "(innerName, self e, markerMode e) \<in> set (held w')"
    by (simp add: w' outerLockReleaser_def held_releaseLock h3 names_distinct)
  then have "[h \<leftarrow> held w'. fst h = innerName] \<noteq> []"
    by (force simp: filter_empty_conv)
  then have ng: "\<not> grantable (held w') innerName Exclusive"
    by (simp add: grantable_def)
  have probe: "\<forall>c. fst (requestLock c innerName \<lparr>mode = None, ifAvailable = True\<rparr> w') = Null"
    using ng by (simp add: requestLock_def Let_def)
  obtain pre where "trace w' = trace w @ pre @
      [LockRequest innerName \<lparr>mode = Some (markerMode e), ifAvailable = True\<rparr>,
       LockGranted innerName (markerMode e), LockReleased outerName]"
    using fulfilled_run_trace [OF assms] by blast
  then have "trace w' = trace w @
      (pre @ [LockRequest innerName \<lparr>mode = Some (markerMode e), ifAvailable = True\<rparr>]) @
      [LockGranted innerName (markerMode e), LockReleased outerName]"
    by simp
  then have "\<exists>pre. trace w' = trace w @ pre @
      [LockGranted innerName (markerMode e), LockReleased outerName]"
    by blast
  with kept probe show ?thesis by blast
qed

theorem C7_marker_is_kept_witness:
  "has resetEnv ''reset''
   \<and> fst (maybeReset resetEnv freeWorld) = Fulfilled
   \<and> (innerName, self resetEnv, markerMode resetEnv) \<in> set (held (snd (maybeReset resetEnv freeWorld)))
   \<and> fst (requestLock 1 innerName \<lparr>mode = None, ifAvailable = True\<rparr>
            (snd (maybeReset resetEnv freeWorld))) = Null"
proof -
  have h: "has resetEnv ''reset''"
    by (rule sample_has)
  have f: "fst (maybeReset resetEnv freeWorld) = Fulfilled"
    by (simp add: run_reset_free)
  have r: "maybeReset resetEnv freeWorld = (Fulfilled, snd (maybeReset resetEnv freeWorld))"
    by (metis f prod.collapse)
  show ?thesis
    using h f C7_marker_is_kept [OF h r] by blast
qed

section \<open>The probe lock is given back\<close>

text \<open>
  C8. Whenever the probe of the inner lock is granted and the clearing of the storage
  settles, fulfilled or rejected, the probe phase ends with the inner lock released:
  the held locks are again those from before the probe, the context holds no inner
  lock, and the events of the phase are the request, the grant, the log line of the
  clearing and the release. The lock taken by the probe is held only while the
  callback that clears the storage has not settled (a deletion the platform blocks
  keeps it pending, and the phase has not ended).
\<close>

theorem C8_probe_lock_is_released:
  assumes "fst (requestLock (self e) innerName \<lparr>mode = None, ifAvailable = True\<rparr> w1) =
             Lock Exclusive"
      and "probeAndClear e w1 = (r, w2)"
  shows "(r = Fulfilled \<or> (\<exists>err. r = Rejected err) \<longrightarrow>
            held w2 = held w1
          \<and> \<not> holds w2 (self e) innerName
          \<and> trace w2 = trace w1 @
              [LockRequest innerName \<lparr>mode = None, ifAvailable = True\<rparr>,
               LockGranted innerName Exclusive, ConsoleLog clearingLog, LockReleased innerName])
       \<and> (r = Pending \<longrightarrow>
            held w2 = held w1 @ [(innerName, self e, Exclusive)]
          \<and> holds w2 (self e) innerName
          \<and> trace w2 = trace w1 @
              [LockRequest innerName \<lparr>mode = None, ifAvailable = True\<rparr>,
               LockGranted innerName Exclusive, ConsoleLog clearingLog])"
proof -
  have g: "grantable (held w1) innerName Exclusive"
    using assms(1) by (auto simp: requestLock_def Let_def split: if_splits)
  then have none: "[h \<leftarrow> held w1. fst h = innerName] = []"
    by (simp add: grantable_def)
  let ?w = "w1\<lparr>held := held w1 @ [(innerName, self e, Exclusive)],
                trace := trace w1 @ [LockRequest innerName \<lparr>mode = None, ifAvailable = True\<rparr>,
                                     LockGranted innerName Exclusive]\<rparr>"
  obtain r' w' where c: "clearStorage e ?w = (r', w')"
    by (cases "clearStorage e ?w")
  have hw': "held w' = held w1 @ [(innerName, self e, Exclusive)]"
    using held_clearStorage [of e ?w] c by simp
  have tw': "trace w' = trace w1 @
      [LockRequest innerName \<lparr>mode = None, ifAvailable = True\<rparr>,
       LockGranted innerName Exclusive, ConsoleLog clearingLog]"
    using trace_clearStorage [of e ?w] c by simp
  have res: "(r, w2) = (if r' = Pending then (Pending, w') else (r', releaseLock (self e) innerName w'))"
    using probeAndClear_granted [OF g c] assms(2) by simp
  show ?thesis
  proof (cases "r' = Pending")
    case True
    then have "r = Pending" "w2 = w'"
      using res by simp_all
    then show ?thesis
      using hw' tw' by (simp add: holds_def)
  next
    case False
    then have r: "r = r'" and w2: "w2 = releaseLock (self e) innerName w'"
      using res by simp_all
    have h: "held w2 = held w1"
      using none by (simp add: w2 releaseLock_def hw' filter_empty_conv filter_id_conv)
    have nh: "\<not> holds w2 (self e) innerName"
      using none by (simp add: holds_def h filter_empty_conv)
    have t: "trace w2 = trace w1 @
        [LockRequest innerName \<lparr>mode = None, ifAvailable = True\<rparr>,
         LockGranted innerName Exclusive, ConsoleLog clearingLog, LockReleased innerName]"
      by (simp add: w2 releaseLock_def tw')
    show ?thesis
      using h nh t r False by simp
  qed
qed

theorem C8_probe_lock_is_released_witness:
  "fst (requestLock (self resetEnv) innerName \<lparr>mode = None, ifAvailable = True\<rparr> freeWorld1) =
     Lock Exclusive
   \<and> fst (probeAndClear resetEnv freeWorld1) = Fulfilled
   \<and> held (snd (probeAndClear resetEnv freeWorld1)) = held freeWorld1
   \<and> \<not> holds (snd (probeAndClear resetEnv freeWorld1)) (self resetEnv) innerName
   \<and> fst (requestLock (self failingEnv) innerName \<lparr>mode = None, ifAvailable = True\<rparr> freeWorld1) =
     Lock Exclusive
   \<and> fst (probeAndClear failingEnv freeWorld1) = Rejected (RemoveEntryFailed ''tmp'')
   \<and> held (snd (probeAndClear failingEnv freeWorld1)) = held freeWorld1
   \<and> \<not> holds (snd (probeAndClear failingEnv freeWorld1)) (self failingEnv) innerName
   \<and> fst (requestLock (self blockedEnv) innerName \<lparr>mode = None, ifAvailable = True\<rparr> freeWorld1) =
     Lock Exclusive
   \<and> fst (probeAndClear blockedEnv freeWorld1) = Pending
   \<and> holds (snd (probeAndClear blockedEnv freeWorld1)) (self blockedEnv) innerName"
proof -
  have g1: "fst (requestLock (self resetEnv) innerName
              \<lparr>mode = None, ifAvailable = True\<rparr> freeWorld1) = Lock Exclusive"
    and g2: "fst (requestLock (self failingEnv) innerName
              \<lparr>mode = None, ifAvailable = True\<rparr> freeWorld1) = Lock Exclusive"
    and g3: "fst (requestLock (self blockedEnv) innerName
              \<lparr>mode = None, ifAvailable = True\<rparr> freeWorld1) = Lock Exclusive"
    by (simp_all add: sample_self sample_blocked sample_requests)
  have f1: "fst (probeAndClear resetEnv freeWorld1) = Fulfilled"
    and f2: "fst (probeAndClear failingEnv freeWorld1) = Rejected (RemoveEntryFailed ''tmp'')"
    and f3: "fst (probeAndClear blockedEnv freeWorld1) = Pending"
    by (simp_all add: sample_probeAndClear sample_probe_fails sample_blocked)
  have p1: "probeAndClear resetEnv freeWorld1 =
      (Fulfilled, snd (probeAndClear resetEnv freeWorld1))"
    by (metis f1 prod.collapse)
  have p2: "probeAndClear failingEnv freeWorld1 =
      (Rejected (RemoveEntryFailed ''tmp''), snd (probeAndClear failingEnv freeWorld1))"
    by (metis f2 prod.collapse)
  have p3: "probeAndClear blockedEnv freeWorld1 =
      (Pending, snd (probeAndClear blockedEnv freeWorld1))"
    by (metis f3 prod.collapse)
  show ?thesis
    using g1 g2 g3 f1 f2 f3
      C8_probe_lock_is_released [OF g1 p1] C8_probe_lock_is_released [OF g2 p2]
      C8_probe_lock_is_released [OF g3 p3]
    by simp
qed

section \<open>The mode of the marker\<close>

text \<open>
  C9. For every run that reaches the marker phase, the request made there names the
  mode the caller chose: exclusive when the search parameters have the key
  \<^verbatim>\<open>exclusive\<close>, shared otherwise. When the run is fulfilled the grant is in that
  mode, and the locks held afterwards are those held before the marker phase without
  the context's outer lock and with the marker in that mode.
\<close>

theorem C9_marker_mode_as_requested:
  assumes "has e ''reset''"
      and "acquireOuter e w = (Fulfilled, w1)"
      and "probeAndClear e w1 = (Fulfilled, w2)"
      and "maybeReset e w = (r, w')"
  shows "trace w' ! length (trace w2) =
           LockRequest innerName
             \<lparr>mode = Some (if has e ''exclusive'' then Exclusive else Shared), ifAvailable = True\<rparr>
       \<and> (r = Fulfilled \<longrightarrow>
            trace w' ! Suc (length (trace w2)) =
              LockGranted innerName (if has e ''exclusive'' then Exclusive else Shared)
          \<and> held w' =
              [h \<leftarrow> held w2. \<not> (fst h = outerName \<and> fst (snd h) = self e)] @
              [(innerName, self e, if has e ''exclusive'' then Exclusive else Shared)])"
  using assms(4) unfolding maybeReset_marker_phase [OF assms(1-3)]
  by (auto simp: markerMode_def outerLockReleaser_def releaseLock_def nth_append names_distinct
           split: if_splits)

theorem C9_marker_mode_as_requested_witness:
  "has exclusiveEnv ''reset''
   \<and> acquireOuter exclusiveEnv freeWorld = (Fulfilled, freeWorld1)
   \<and> probeAndClear exclusiveEnv freeWorld1 = (Fulfilled, freeWorld2)
   \<and> has exclusiveEnv ''exclusive''
   \<and> fst (maybeReset exclusiveEnv freeWorld) = Fulfilled
   \<and> trace (snd (maybeReset exclusiveEnv freeWorld)) ! length (trace freeWorld2) =
       LockRequest innerName \<lparr>mode = Some Exclusive, ifAvailable = True\<rparr>
   \<and> trace (snd (maybeReset exclusiveEnv freeWorld)) ! Suc (length (trace freeWorld2)) =
       LockGranted innerName Exclusive"
proof -
  have h: "has exclusiveEnv ''reset''" and x: "has exclusiveEnv ''exclusive''"
    by (rule sample_has)+
  have a: "acquireOuter exclusiveEnv freeWorld = (Fulfilled, freeWorld1)"
    by (rule sample_acquireOuter)
  have p: "probeAndClear exclusiveEnv freeWorld1 = (Fulfilled, freeWorld2)"
    by (rule sample_probeAndClear)
  have f: "fst (maybeReset exclusiveEnv freeWorld) = Fulfilled"
    by (simp add: run_exclusive_free)
  have r: "maybeReset exclusiveEnv freeWorld =
      (Fulfilled, snd (maybeReset exclusiveEnv freeWorld))"
    by (metis f prod.collapse)
  show ?thesis
    using h x a p f C9_marker_mode_as_requested [OF h a p r] by simp
qed

section \<open>What the \<^verbatim>\<open>exclusive\<close> key can change\<close>

text \<open>
  C10. Take a run and change its search parameters in the key \<^verbatim>\<open>exclusive\<close> only.
  Then the acquisition of the outer lock and the probe phase (the probe of the inner
  lock and the clearing or skipping that follows) give the same result in every world,
  the events of the two runs before the marker request are the same, and the two runs
  leave the same storage.
\<close>

theorem C10_exclusive_key_changes_marker_only:
  assumes "set ps - {''exclusive''} = set (searchParams e) - {''exclusive''}"
  shows "acquireOuter (e\<lparr>searchParams := ps\<rparr>) w = acquireOuter e w
       \<and> probeAndClear (e\<lparr>searchParams := ps\<rparr>) w1 = probeAndClear e w1
       \<and> beforeMarker (eventsOf (e\<lparr>searchParams := ps\<rparr>) w) = beforeMarker (eventsOf e w)
       \<and> opfs (snd (maybeReset (e\<lparr>searchParams := ps\<rparr>) w)) = opfs (snd (maybeReset e w))
       \<and> idb (snd (maybeReset (e\<lparr>searchParams := ps\<rparr>) w)) = idb (snd (maybeReset e w))"
proof -
  let ?e = "e\<lparr>searchParams := ps\<rparr>"
  have "(''reset'' \<in> set ps - {''exclusive''}) = (''reset'' \<in> set (searchParams e) - {''exclusive''})"
    using assms by simp
  then have reset: "has ?e ''reset'' = has e ''reset''"
    by (simp add: has_def)
  show ?thesis
  proof (cases "has e ''reset''")
    case True
    then have "has ?e ''reset''" using reset by simp
    then show ?thesis
      using True
      by (simp only: beforeMarker_run storage_run acquireOuter_params probeAndClear_params)
  next
    case False
    then have "maybeReset e w = (Fulfilled, w)" "maybeReset ?e w = (Fulfilled, w)"
      using reset by (simp_all add: maybeReset_def)
    then show ?thesis
      by (simp add: eventsOf_def acquireOuter_params probeAndClear_params)
  qed
qed

theorem C10_exclusive_key_changes_marker_only_witness:
  "set [''exclusive'', ''reset''] - {''exclusive''} = set (searchParams resetEnv) - {''exclusive''}
   \<and> acquireOuter (resetEnv\<lparr>searchParams := [''exclusive'', ''reset'']\<rparr>) freeWorld =
       acquireOuter resetEnv freeWorld
   \<and> probeAndClear (resetEnv\<lparr>searchParams := [''exclusive'', ''reset'']\<rparr>) freeWorld1 =
       probeAndClear resetEnv freeWorld1
   \<and> beforeMarker (eventsOf (resetEnv\<lparr>searchParams := [''exclusive'', ''reset'']\<rparr>) freeWorld) =
       beforeMarker (eventsOf resetEnv freeWorld)
   \<and> opfs (snd (maybeReset (resetEnv\<lparr>searchParams := [''exclusive'', ''reset'']\<rparr>) freeWorld)) =
       opfs (snd (maybeReset resetEnv freeWorld))
   \<and> idb (snd (maybeReset (resetEnv\<lparr>searchParams := [''exclusive'', ''reset'']\<rparr>) freeWorld)) =
       idb (snd (maybeReset resetEnv freeWorld))"
proof -
  have h: "set [''exclusive'', ''reset''] - {''exclusive''} =
      set (searchParams resetEnv) - {''exclusive''}"
    by (auto simp: sample_defs)
  show ?thesis
    using h C10_exclusive_key_changes_marker_only [OF h, of freeWorld freeWorld1] by blast
qed

end
